theory Spec2Isabelle
  imports
    Complex_Main
    "HOL-Library.AList"
    "HOL-Library.Char_ord"
    "HOL-Library.List_Lexorder"
    "HOL-Library.Product_Lexorder"
begin

section \<open>Data model of \<^verbatim>\<open>context_engine.py\<close>\<close>

text \<open>
  A Python \<^verbatim>\<open>str\<close> is a sequence of code points. The model uses \<^typ>\<open>string\<close>, whose
  characters are the code points 0 to 255 (ASCII and the Latin-1 supplement), and classifies
  each of them as Python's \<^verbatim>\<open>str\<close> methods do. Python compares strings code point by code
  point, which is the lexicographic order on \<^typ>\<open>string\<close> over the order of characters by
  their code. Strings with a code point above 255 are outside the model: the properties
  below that depend on the classification of characters are stated for ASCII text, where
  the model and Python agree character by character. Python's \<^verbatim>\<open>int\<close> is \<^typ>\<open>int\<close>.

  A \<^verbatim>\<open>dict\<close> is an association list in insertion order: \<^const>\<open>map_of\<close> reads a key,
  \<^const>\<open>AList.update\<close> stores one (an existing key keeps its place, a new key goes to the
  end), and the list itself is what \<^verbatim>\<open>items()\<close> iterates over.
\<close>

record Document =
  id' :: string
  title :: string
  body :: string
  tags :: "string list"
  access_level :: int

record SearchResult =
  doc_id :: string
  score :: int

datatype py_error = KeyError | TypeError

type_synonym inverted_index = "(string \<times> (string \<times> int) list) list"

section \<open>The tokenizer\<close>

text \<open>\<^verbatim>\<open>str.isalnum\<close> on one character: letters, decimal digits, and the other numeric
  characters of the range (superscript digits and vulgar fractions).\<close>

definition isalnum :: "char \<Rightarrow> bool" where
  "isalnum c =
     (let n = (of_char c :: nat) in
        (48 \<le> n \<and> n \<le> 57) \<or> (65 \<le> n \<and> n \<le> 90) \<or> (97 \<le> n \<and> n \<le> 122) \<or>
        n = 170 \<or> n = 178 \<or> n = 179 \<or> n = 181 \<or> n = 185 \<or> n = 186 \<or>
        (188 \<le> n \<and> n \<le> 190) \<or> (192 \<le> n \<and> n \<le> 214) \<or>
        (216 \<le> n \<and> n \<le> 246) \<or> (248 \<le> n \<and> n \<le> 255))"

text \<open>\<^verbatim>\<open>str.isupper\<close> on one character: the upper-case letters.\<close>

definition isupper :: "char \<Rightarrow> bool" where
  "isupper c =
     (let n = (of_char c :: nat) in
        (65 \<le> n \<and> n \<le> 90) \<or> (192 \<le> n \<and> n \<le> 214) \<or> (216 \<le> n \<and> n \<le> 222))"

text \<open>\<^verbatim>\<open>str.isspace\<close> on one character: what \<^verbatim>\<open>str.split()\<close> splits at.\<close>

definition isspace :: "char \<Rightarrow> bool" where
  "isspace c =
     (let n = (of_char c :: nat) in
        (9 \<le> n \<and> n \<le> 13) \<or> (28 \<le> n \<and> n \<le> 32) \<or> n = 133 \<or> n = 160)"

text \<open>\<^verbatim>\<open>str.lower\<close>: every upper-case letter of the range has its lower-case partner 32
  code points above it; no other character changes.\<close>

definition lower_char :: "char \<Rightarrow> char" where
  "lower_char c = (if isupper c then char_of ((of_char c :: nat) + 32) else c)"

definition lower :: "string \<Rightarrow> string" where
  "lower text = map lower_char text"

text \<open>\<^verbatim>\<open>str.split()\<close> with no argument: the maximal runs of characters that are not white
  space, in order. The first argument is the run read so far.\<close>

fun split_from :: "string \<Rightarrow> string \<Rightarrow> string list" where
  "split_from cur [] = (if cur = [] then [] else [cur])"
| "split_from cur (c # cs) =
     (if isspace c then (if cur = [] then split_from [] cs else cur # split_from [] cs)
      else split_from (cur @ [c]) cs)"

definition split :: "string \<Rightarrow> string list" where
  "split text = split_from [] text"

definition tokenize :: "string \<Rightarrow> string list" where
  "tokenize text =
     (let chars = map (\<lambda>char. if isalnum char \<or> char = CHR '' '' then char else CHR '' '')
                      (lower text)
      in split chars)"

section \<open>The index builder\<close>

text \<open>\<^verbatim>\<open>Counter(tokens)\<close>: each token with the number of its occurrences, in the order
  of first occurrence.\<close>

definition Counter :: "string list \<Rightarrow> (string \<times> int) list" where
  "Counter tokens =
     fold (\<lambda>t c. AList.update t ((case map_of c t of None \<Rightarrow> 0 | Some n \<Rightarrow> n) + 1) c) tokens []"

text \<open>\<^verbatim>\<open>index[word][doc.id] = count\<close> on a \<^verbatim>\<open>defaultdict(dict)\<close>: a missing word gets an
  empty inner dictionary first.\<close>

definition index_set :: "string \<Rightarrow> string \<Rightarrow> int \<Rightarrow> inverted_index \<Rightarrow> inverted_index" where
  "index_set word d count index =
     AList.update word
       (AList.update d count (case map_of index word of None \<Rightarrow> [] | Some inner \<Rightarrow> inner))
       index"

definition index_document :: "Document \<Rightarrow> inverted_index \<Rightarrow> inverted_index" where
  "index_document doc index =
     (let text = title doc @ '' '' @ body doc;
          tokens = tokenize text;
          counts = Counter tokens
      in fold (\<lambda>(word, count) index. if count > 0 then index_set word (id' doc) count index
                                       else index)
              counts index)"

definition build_index :: "Document list \<Rightarrow> inverted_index" where
  "build_index documents = fold index_document documents []"

section \<open>The query engine\<close>

text \<open>\<^verbatim>\<open>{doc.id: doc for doc in documents}\<close>: a later document replaces an earlier one of
  the same id.\<close>

definition id2doc_of :: "Document list \<Rightarrow> (string \<times> Document) list" where
  "id2doc_of documents = fold (\<lambda>doc m. AList.update (id' doc) doc m) documents []"

text \<open>Python's truth value of an \<^verbatim>\<open>int | None\<close>: \<^verbatim>\<open>None\<close> and 0 are false.\<close>

fun truthy :: "int option \<Rightarrow> bool" where
  "truthy None = False"
| "truthy (Some n) = (n \<noteq> 0)"

text \<open>\<^verbatim>\<open>scores[doc_id] += score\<close> on a \<^verbatim>\<open>defaultdict(int)\<close>.\<close>

definition add_score :: "string \<Rightarrow> int \<Rightarrow> (string \<times> int) list \<Rightarrow> (string \<times> int) list" where
  "add_score d s scores =
     AList.update d ((case map_of scores d of None \<Rightarrow> 0 | Some v \<Rightarrow> v) + s) scores"

text \<open>The inner loop over \<^verbatim>\<open>index[token].items()\<close>. \<^verbatim>\<open>id2doc[doc_id]\<close> is evaluated first in
  the condition and raises \<^verbatim>\<open>KeyError\<close> for an unknown id. The \<^verbatim>\<open>elif\<close> compares an
  \<^verbatim>\<open>int\<close> with \<^verbatim>\<open>user_access_level\<close>, which would raise \<^verbatim>\<open>TypeError\<close> on \<^verbatim>\<open>None\<close>.\<close>

fun score_postings ::
  "(string \<times> Document) list \<Rightarrow> int option \<Rightarrow> (string \<times> int) list \<Rightarrow> (string \<times> int) list
     \<Rightarrow> py_error + (string \<times> int) list" where
  "score_postings id2doc user_access_level [] scores = Inr scores"
| "score_postings id2doc user_access_level ((d, s) # rest) scores =
     (case map_of id2doc d of
        None \<Rightarrow> Inl KeyError
      | Some doc \<Rightarrow>
          if access_level doc = 0 \<or> \<not> truthy user_access_level
          then score_postings id2doc user_access_level rest (add_score d s scores)
          else (case user_access_level of
                  None \<Rightarrow> Inl TypeError
                | Some l \<Rightarrow>
                    if access_level doc \<le> l
                    then score_postings id2doc user_access_level rest (add_score d s scores)
                    else score_postings id2doc user_access_level rest scores))"

text \<open>The outer loop over the query tokens.\<close>

fun score_tokens ::
  "inverted_index \<Rightarrow> (string \<times> Document) list \<Rightarrow> int option \<Rightarrow> string list
     \<Rightarrow> (string \<times> int) list \<Rightarrow> py_error + (string \<times> int) list" where
  "score_tokens index id2doc user_access_level [] scores = Inr scores"
| "score_tokens index id2doc user_access_level (token # rest) scores =
     (case map_of index token of
        None \<Rightarrow> score_tokens index id2doc user_access_level rest scores
      | Some postings \<Rightarrow>
          (case score_postings id2doc user_access_level postings scores of
             Inl e \<Rightarrow> Inl e
           | Inr scores' \<Rightarrow> score_tokens index id2doc user_access_level rest scores'))"

text \<open>The key of \<^verbatim>\<open>results.sort\<close>: the tuple \<^verbatim>\<open>(-x.score, x.doc_id)\<close>, compared
  lexicographically.\<close>

definition sort_key_of :: "SearchResult \<Rightarrow> int \<times> string" where
  "sort_key_of x = (- score x, doc_id x)"

text \<open>The slice \<^verbatim>\<open>xs[:n]\<close>: a negative \<^verbatim>\<open>n\<close> counts from the end.\<close>

definition slice_to :: "'a list \<Rightarrow> int \<Rightarrow> 'a list" where
  "slice_to xs n = (if 0 \<le> n then take (nat n) xs else take (nat (int (length xs) + n)) xs)"

text \<open>The results before the final slice: one per key of \<^verbatim>\<open>scores\<close>, sorted.\<close>

definition ranked ::
  "inverted_index \<Rightarrow> Document list \<Rightarrow> string \<Rightarrow> int option \<Rightarrow> py_error + SearchResult list" where
  "ranked index documents query user_access_level =
     (let query_tokens = tokenize query;
          id2doc = id2doc_of documents
      in case score_tokens index id2doc user_access_level query_tokens [] of
           Inl e \<Rightarrow> Inl e
         | Inr scores \<Rightarrow>
             Inr (sort_key sort_key_of
                    (map (\<lambda>(d, s). \<lparr>doc_id = d, score = s\<rparr>) scores)))"

definition search ::
  "inverted_index \<Rightarrow> Document list \<Rightarrow> string \<Rightarrow> int \<Rightarrow> int option
     \<Rightarrow> py_error + SearchResult list" where
  "search index documents query max_results user_access_level =
     (case ranked index documents query user_access_level of
        Inl e \<Rightarrow> Inl e
      | Inr results \<Rightarrow> Inr (slice_to results max_results))"

section \<open>The evaluator\<close>

text \<open>The quotient \<^verbatim>\<open>count/k\<close> of two integers is kept exact, as a real number; the
  \<^verbatim>\<open>float\<close> Python returns is the one nearest to it.\<close>

definition precision_at_k :: "string set \<Rightarrow> SearchResult list \<Rightarrow> int \<Rightarrow> real" where
  "precision_at_k gold_relevant retrieved k =
     (if k \<le> 0 then 0
      else
        let count = fold (\<lambda>res count. if doc_id res \<in> gold_relevant then count + 1 else count)
                         (slice_to retrieved k) (0 :: int)
        in real_of_int count / real_of_int k)"

section \<open>Predicates used to state the properties\<close>

text \<open>The characters \<^verbatim>\<open>a\<close> to \<^verbatim>\<open>z\<close> and \<^verbatim>\<open>0\<close> to \<^verbatim>\<open>9\<close>.\<close>

definition ascii_lower_alnum :: "char \<Rightarrow> bool" where
  "ascii_lower_alnum c =
     (let n = (of_char c :: nat) in (48 \<le> n \<and> n \<le> 57) \<or> (97 \<le> n \<and> n \<le> 122))"

text \<open>The number of times a term occurs among the tokens of a document's title and body.\<close>

definition occurrences :: "Document \<Rightarrow> string \<Rightarrow> int" where
  "occurrences doc term = int (count_list (tokenize (title doc @ '' '' @ body doc)) term)"

text \<open>Every entry of the index was written for one of the documents of \<open>D\<close>, with that
  document's count of the term, and no term has an empty inner dictionary.\<close>

definition entries_from :: "Document set \<Rightarrow> inverted_index \<Rightarrow> bool" where
  "entries_from D index =
     (\<forall>(term, postings) \<in> set index.
        postings \<noteq> [] \<and>
        (\<forall>(d, n) \<in> set postings. \<exists>doc \<in> D. id' doc = d \<and> n = occurrences doc term \<and> 1 \<le> n))"

text \<open>The documents whose postings the inner loop adds to \<open>scores\<close>.\<close>

definition admitted :: "(string \<times> Document) list \<Rightarrow> int option \<Rightarrow> string \<Rightarrow> bool" where
  "admitted id2doc user_access_level d =
     (case map_of id2doc d of
        None \<Rightarrow> False
      | Some doc \<Rightarrow>
          access_level doc = 0 \<or>
          (case user_access_level of None \<Rightarrow> True | Some l \<Rightarrow> l = 0 \<or> access_level doc \<le> l))"

text \<open>Every document id listed in the index under a token of the query is the id of one of
  the documents.\<close>

definition known_ids :: "inverted_index \<Rightarrow> Document list \<Rightarrow> string \<Rightarrow> bool" where
  "known_ids index documents query =
     (\<forall>token \<in> set (tokenize query).
        case map_of index token of
          None \<Rightarrow> True
        | Some postings \<Rightarrow> \<forall>d \<in> fst ` set postings. d \<in> id' ` set documents)"

text \<open>A query token lists the document in the index.\<close>

definition matched :: "inverted_index \<Rightarrow> string \<Rightarrow> string \<Rightarrow> bool" where
  "matched index query d =
     (\<exists>token \<in> set (tokenize query).
        case map_of index token of None \<Rightarrow> False | Some postings \<Rightarrow> d \<in> fst ` set postings)"

text \<open>Every frequency stored in the index is at least 1.\<close>

definition positive_index :: "inverted_index \<Rightarrow> bool" where
  "positive_index index = (\<forall>(t, postings) \<in> set index. \<forall>(d, n) \<in> set postings. 1 \<le> n)"

text \<open>The order of the results: higher score first, equal scores by ascending \<open>doc_id\<close>.\<close>

definition ranked_before :: "SearchResult \<Rightarrow> SearchResult \<Rightarrow> bool" where
  "ranked_before a b = (score a > score b \<or> (score a = score b \<and> doc_id a < doc_id b))"


section \<open>Properties of the tokenizer\<close>

lemma split_from_tokens:
  "t \<in> set (split_from cur cs) \<Longrightarrow> t \<noteq> [] \<and> set t \<subseteq> set cur \<union> {c \<in> set cs. \<not> isspace c}"
proof (induction cs arbitrary: cur)
  case Nil
  then show ?case by (auto split: if_splits)
next
  case (Cons c cs)
  show ?case
  proof (cases "isspace c")
    case True
    then show ?thesis using Cons.prems Cons.IH [of "[]"] by (auto split: if_splits)
  next
    case False
    then show ?thesis using Cons.prems Cons.IH [of "cur @ [c]"] by auto
  qed
qed

lemma lower_char_code:
  "(of_char (lower_char c) :: nat) = (if isupper c then of_char c + 32 else of_char c)"
  by (auto simp add: lower_char_def isupper_def Let_def)

lemma tokenize_chars:
  assumes "t \<in> set (tokenize text)" and "c \<in> set t"
  shows "\<exists>x \<in> set text. c = lower_char x \<and> isalnum c"
proof -
  let ?f = "\<lambda>char. if isalnum char \<or> char = CHR '' '' then char else CHR '' ''"
  have "t \<in> set (split_from [] (map ?f (lower text)))"
    using assms(1) by (simp add: tokenize_def split_def Let_def)
  then have "c \<in> set (map ?f (lower text))" and nsp: "\<not> isspace c"
    using split_from_tokens [of t "[]" "map ?f (lower text)"] assms(2) by auto
  then obtain y where y: "y \<in> set (lower text)" and c: "c = ?f y"
    by auto
  have sp: "isspace CHR '' ''" by (simp add: isspace_def)
  have "isalnum y \<and> c = y"
    using c nsp sp by (cases "isalnum y \<or> y = CHR '' ''") auto
  then show ?thesis
    using y by (auto simp add: lower_def)
qed

lemma ascii_lower_alnum_lower_char:
  "(of_char x :: nat) < 128 \<Longrightarrow> isalnum (lower_char x) \<Longrightarrow> ascii_lower_alnum (lower_char x)"
  unfolding ascii_lower_alnum_def isalnum_def Let_def lower_char_code
  by (auto simp add: isupper_def Let_def)

text \<open>
  Claim C6, amended. For every text of ASCII characters, every token that \<open>tokenize\<close>
  returns is non-empty and consists only of the characters \<^verbatim>\<open>a\<close> to \<^verbatim>\<open>z\<close> and
  \<^verbatim>\<open>0\<close> to \<^verbatim>\<open>9\<close>, so no upper-case letter, punctuation or symbol character occurs in
  a token; and the tokens of \<^verbatim>\<open>"Hello, World! 123"\<close> are \<^verbatim>\<open>hello\<close>, \<^verbatim>\<open>world\<close> and
  \<^verbatim>\<open>123\<close>.
\<close>

theorem tokenize_ascii_lowercase_alnum:
  "((\<forall>x \<in> set text. (of_char x :: nat) < 128)
      \<longrightarrow> (\<forall>t \<in> set (tokenize text). t \<noteq> [] \<and> (\<forall>c \<in> set t. ascii_lower_alnum c)))
   \<and> tokenize ''Hello, World! 123'' = [''hello'', ''world'', ''123'']"
proof (intro conjI ballI impI)
  fix t assume "t \<in> set (tokenize text)"
  then show "t \<noteq> []"
    using split_from_tokens [of t "[]"] by (simp add: tokenize_def split_def Let_def)
next
  fix t c
  assume ascii: "\<forall>x \<in> set text. (of_char x :: nat) < 128"
    and "t \<in> set (tokenize text)" and "c \<in> set t"
  then obtain x where "x \<in> set text" and "c = lower_char x" and "isalnum c"
    using tokenize_chars by blast
  then show "ascii_lower_alnum c"
    using ascii ascii_lower_alnum_lower_char by blast
next
  show "tokenize ''Hello, World! 123'' = [''hello'', ''world'', ''123'']"
    by code_simp
qed

theorem tokenize_ascii_lowercase_alnum_witness:
  "list_all (\<lambda>x. (of_char x :: nat) < 128) ''RAG: Retrieval-Augmented''
   \<and> ''rag'' \<in> set (tokenize ''RAG: Retrieval-Augmented'') \<and> CHR ''r'' \<in> set ''rag''
   \<and> ''rag'' \<noteq> [] \<and> ascii_lower_alnum CHR ''r''"
proof -
  have mem: "''rag'' \<in> set (tokenize ''RAG: Retrieval-Augmented'')" by code_simp
  have ch: "CHR ''r'' \<in> set ''rag''" by simp
  have ascii: "list_all (\<lambda>x. (of_char x :: nat) < 128) ''RAG: Retrieval-Augmented''" by simp
  then have "\<forall>x \<in> set ''RAG: Retrieval-Augmented''. (of_char x :: nat) < 128"
    unfolding list_all_iff .
  then show ?thesis
    using tokenize_ascii_lowercase_alnum [of "''RAG: Retrieval-Augmented''"] mem ch ascii
    by blast
qed

text \<open>
  Claim C6 as stated, for every text, fails: \<open>tokenize\<close> keeps every character that
  \<^verbatim>\<open>str.isalnum\<close> accepts, and that holds for characters outside \<^verbatim>\<open>a\<close> to \<^verbatim>\<open>z\<close> and
  \<^verbatim>\<open>0\<close> to \<^verbatim>\<open>9\<close>, which the documentation of \<open>tokenize\<close> names as the alphanumeric
  characters. The text is \<^verbatim>\<open>Caf\<close>, the letter e with acute accent (code point 233), a
  space, \<^verbatim>\<open>x\<close> and the superscript two (code point 178); both characters stay in the
  tokens.
\<close>

theorem tokenize_non_ascii_counterexample:
  "tokenize [CHR ''C'', CHR ''a'', CHR ''f'', CHR 0xE9, CHR '' '', CHR ''x'', CHR 0xB2]
     = [[CHR ''c'', CHR ''a'', CHR ''f'', CHR 0xE9], [CHR ''x'', CHR 0xB2]]
   \<and> (of_char (CHR 0xE9) :: nat) = 233 \<and> \<not> ascii_lower_alnum (CHR 0xE9)
   \<and> (of_char (CHR 0xB2) :: nat) = 178 \<and> \<not> ascii_lower_alnum (CHR 0xB2)"
  by code_simp

section \<open>Properties of the evaluator\<close>

lemma count_fold:
  "fold (\<lambda>res count. if P res then count + 1 else count) xs (a :: int)
     = a + int (length (filter P xs))"
  by (induction xs arbitrary: a) auto

text \<open>
  Claim C7. \<open>precision_at_k\<close> is 0 when \<open>k \<le> 0\<close>; it is 0 when nothing was retrieved
  and \<open>0 < k\<close>; and for \<open>0 < k\<close> it is the number of entries among the first
  \<open>min k (length retrieved)\<close> whose \<open>doc_id\<close> is relevant, divided by \<open>k\<close> itself.
\<close>

theorem precision_at_k_value:
  "(k \<le> 0 \<longrightarrow> precision_at_k gold_relevant retrieved k = 0)
   \<and> (0 < k \<longrightarrow> precision_at_k gold_relevant [] k = 0)
   \<and> (0 < k \<longrightarrow> precision_at_k gold_relevant retrieved k =
         real (length (filter (\<lambda>res. doc_id res \<in> gold_relevant)
                              (take (min (nat k) (length retrieved)) retrieved)))
           / real_of_int k)"
proof -
  have "take (min (nat k) (length retrieved)) retrieved = take (nat k) retrieved"
    by (simp add: min_def)
  then show ?thesis
    by (simp add: precision_at_k_def slice_to_def count_fold Let_def)
qed

theorem precision_at_k_value_witness:
  "(0 :: int) < 5
   \<and> precision_at_k {''doc1'', ''doc3''}
         [\<lparr>doc_id = ''doc1'', score = 3\<rparr>, \<lparr>doc_id = ''doc2'', score = 2\<rparr>] 5 = 1 / 5
   \<and> precision_at_k {''doc1'', ''doc3''} [] 5 = 0
   \<and> \<not> (0 :: int) < 0
   \<and> precision_at_k {''doc1'', ''doc3''} [\<lparr>doc_id = ''doc1'', score = 3\<rparr>] 0 = 0"
  using precision_at_k_value [of 5 "{''doc1'', ''doc3''}"
          "[\<lparr>doc_id = ''doc1'', score = 3\<rparr>, \<lparr>doc_id = ''doc2'', score = 2\<rparr>]"]
        precision_at_k_value [of 0 "{''doc1'', ''doc3''}" "[\<lparr>doc_id = ''doc1'', score = 3\<rparr>]"]
  by simp

section \<open>Properties of the index builder\<close>

lemma set_update_subset: "set (AList.update k v al) \<subseteq> insert (k, v) (set al)"
  by (induction al) auto

lemma counter_fold_lookup:
  "map_of (fold (\<lambda>t c. AList.update t ((case map_of c t of None \<Rightarrow> 0 | Some n \<Rightarrow> n) + 1) c) ts c) w
     = (if w \<in> set ts
        then Some ((case map_of c w of None \<Rightarrow> 0 | Some n \<Rightarrow> n) + int (count_list ts w))
        else map_of c w)"
  by (induction ts arbitrary: c) (auto simp add: update_conv')

lemma counter_fold_distinct:
  "distinct (map fst c) \<Longrightarrow>
     distinct (map fst (fold (\<lambda>t c. AList.update t ((case map_of c t of None \<Rightarrow> 0 | Some n \<Rightarrow> n) + 1) c) ts c))"
  by (induction ts arbitrary: c) (auto simp add: distinct_update)

lemma Counter_entries:
  assumes "(w, n) \<in> set (Counter ts)"
  shows "n = int (count_list ts w) \<and> 1 \<le> n"
proof -
  have "distinct (map fst (Counter ts))"
    unfolding Counter_def by (rule counter_fold_distinct) simp
  then have "map_of (Counter ts) w = Some n"
    using assms by simp
  then have "w \<in> set ts \<and> n = int (count_list ts w)"
    unfolding Counter_def counter_fold_lookup by (auto split: if_splits)
  moreover have "count_list ts w \<noteq> 0" if "w \<in> set ts"
    using that by (simp add: count_list_0_iff)
  ultimately show ?thesis by auto
qed

lemma index_set_entries:
  "set (index_set word d count index)
     \<subseteq> insert (word, AList.update d count
                       (case map_of index word of None \<Rightarrow> [] | Some inner \<Rightarrow> inner))
               (set index)"
  unfolding index_set_def by (rule set_update_subset)

lemma index_set_entries_from:
  assumes "entries_from D index" and "doc \<in> D" and "count = occurrences doc word" and "1 \<le> count"
  shows "entries_from D (index_set word (id' doc) count index)"
proof -
  let ?old = "case map_of index word of None \<Rightarrow> [] | Some inner \<Rightarrow> inner"
  have old: "\<forall>(d, n) \<in> set ?old. \<exists>doc \<in> D. id' doc = d \<and> n = occurrences doc word \<and> 1 \<le> n"
  proof (cases "map_of index word")
    case None
    then show ?thesis by simp
  next
    case (Some inner)
    then have "(word, inner) \<in> set index" by (rule map_of_SomeD)
    then show ?thesis
      using assms(1) Some by (auto simp add: entries_from_def)
  qed
  have "set (AList.update (id' doc) count ?old) \<subseteq> insert (id' doc, count) (set ?old)"
    by (rule set_update_subset)
  then have new: "\<forall>(d, n) \<in> set (AList.update (id' doc) count ?old).
      \<exists>doc \<in> D. id' doc = d \<and> n = occurrences doc word \<and> 1 \<le> n"
    using old assms(2-4) by blast
  show ?thesis
    unfolding entries_from_def
  proof (intro ballI, clarify)
    fix t ps assume "(t, ps) \<in> set (index_set word (id' doc) count index)"
    then consider "(t, ps) = (word, AList.update (id' doc) count ?old)" | "(t, ps) \<in> set index"
      using index_set_entries [of word "id' doc" count index] by blast
    then show "ps \<noteq> [] \<and>
        (\<forall>(d, n) \<in> set ps. \<exists>doc \<in> D. id' doc = d \<and> n = occurrences doc t \<and> 1 \<le> n)"
    proof cases
      case 1
      then show ?thesis using new by simp
    next
      case 2
      then show ?thesis using assms(1) by (auto simp add: entries_from_def)
    qed
  qed
qed

lemma counts_fold_entries_from:
  assumes "doc \<in> D"
  shows "\<forall>(w, n) \<in> set cs. n = occurrences doc w \<and> 1 \<le> n \<Longrightarrow> entries_from D index \<Longrightarrow>
     entries_from D
       (fold (\<lambda>(word, count) index. if count > 0 then index_set word (id' doc) count index
                                       else index) cs index)"
proof (induction cs arbitrary: index)
  case Nil
  then show ?case by simp
next
  case (Cons c cs)
  obtain w n where c: "c = (w, n)" by (cases c)
  have n: "n = occurrences doc w" "1 \<le> n" and rest: "\<forall>(w, n) \<in> set cs. n = occurrences doc w \<and> 1 \<le> n"
    using Cons.prems(1) by (auto simp add: c)
  have "entries_from D (index_set w (id' doc) n index)"
    using Cons.prems(2) assms n by (rule index_set_entries_from)
  from Cons.IH [OF rest this] show ?case
    using n by (simp add: c)
qed

lemma index_document_entries_from:
  assumes "doc \<in> D" and "entries_from D index"
  shows "entries_from D (index_document doc index)"
proof -
  have "\<forall>(w, n) \<in> set (Counter (tokenize (title doc @ '' '' @ body doc))).
          n = occurrences doc w \<and> 1 \<le> n"
    using Counter_entries by (auto simp add: occurrences_def)
  from counts_fold_entries_from [OF assms(1) this assms(2)] show ?thesis
    by (simp add: index_document_def Let_def)
qed

lemma fold_index_document_entries_from:
  "set ds \<subseteq> D \<Longrightarrow> entries_from D index \<Longrightarrow> entries_from D (fold index_document ds index)"
proof (induction ds arbitrary: index)
  case Nil
  then show ?case by simp
next
  case (Cons doc ds)
  have "entries_from D (index_document doc index)"
    using Cons.prems by (intro index_document_entries_from) simp_all
  then have "entries_from D (fold index_document ds (index_document doc index))"
    using Cons.IH Cons.prems(1) by simp
  then show ?case by simp
qed

lemma build_index_entries_from: "entries_from (set documents) (build_index documents)"
proof -
  have "entries_from (set documents) []"
    by (simp add: entries_from_def)
  then show ?thesis
    unfolding build_index_def by (intro fold_index_document_entries_from) simp_all
qed

lemma entries_fromD:
  assumes "entries_from D index" and "(t, ps) \<in> set index"
  shows "ps \<noteq> []"
    and "(d, n) \<in> set ps \<Longrightarrow> \<exists>doc \<in> D. id' doc = d \<and> n = occurrences doc t \<and> 1 \<le> n"
proof -
  have "\<forall>e \<in> set index. fst e = fst e \<and> (case e of (term, postings) \<Rightarrow>
      postings \<noteq> [] \<and>
      (\<forall>(d, n) \<in> set postings. \<exists>doc \<in> D. id' doc = d \<and> n = occurrences doc term \<and> 1 \<le> n))"
    using assms(1) unfolding entries_from_def by simp
  from bspec [OF this assms(2)] have *: "ps \<noteq> [] \<and>
      (\<forall>e \<in> set ps. case e of (d, n) \<Rightarrow>
         \<exists>doc \<in> D. id' doc = d \<and> n = occurrences doc t \<and> 1 \<le> n)"
    by simp
  show "ps \<noteq> []" using * by simp
  show "\<exists>doc \<in> D. id' doc = d \<and> n = occurrences doc t \<and> 1 \<le> n" if "(d, n) \<in> set ps"
    using bspec [OF conjunct2 [OF *] that] by simp
qed

lemma build_index_positive: "positive_index (build_index documents)"
  unfolding positive_index_def
proof (intro ballI, goal_cases)
  case (1 e)
  obtain t ps where e: "e = (t, ps)" by (cases e)
  have "1 \<le> n" if "(d, n) \<in> set ps" for d n
    using entries_fromD(2) [OF build_index_entries_from, of t ps documents d n] 1 e that by auto
  then show ?case by (auto simp add: e)
qed

text \<open>
  Claim C4. When the documents have pairwise distinct ids, every entry stored by
  \<open>build_index\<close> under a term and a document id holds the number of occurrences of the term
  among the tokens of \<open>title + " " + body\<close> of the document with that id; so every stored
  frequency is at least 1, and no term has an empty inner dictionary. The entries are the
  pairs of the association lists, which include every \<^verbatim>\<open>index[term][doc_id]\<close>.
\<close>

theorem build_index_frequencies:
  assumes "distinct (map id' documents)"
    and "(term, postings) \<in> set (build_index documents)"
  shows "postings \<noteq> [] \<and>
         (\<forall>(d, n) \<in> set postings.
            1 \<le> n \<and> (\<exists>doc \<in> set documents. id' doc = d) \<and>
            (\<forall>doc \<in> set documents. id' doc = d \<longrightarrow> n = occurrences doc term))"
proof (intro conjI ballI, goal_cases)
  case 1
  show ?case
    using build_index_entries_from assms(2) by (rule entries_fromD(1))
next
  case (2 p)
  obtain d n where p: "p = (d, n)" by (cases p)
  have inj: "inj_on id' (set documents)"
    using assms(1) by (simp add: distinct_map)
  have "(d, n) \<in> set postings"
    using 2 p by simp
  then obtain doc where doc: "doc \<in> set documents" "id' doc = d" "n = occurrences doc term" "1 \<le> n"
    using entries_fromD(2) [OF build_index_entries_from assms(2)] by blast
  have "doc' = doc" if "doc' \<in> set documents" "id' doc' = d" for doc'
    using inj doc(1,2) that by (simp add: inj_on_def)
  then have "\<forall>doc' \<in> set documents. id' doc' = d \<longrightarrow> n = occurrences doc' term"
    using doc(3) by blast
  then show ?case
    using doc(1,2,4) by (auto simp add: p)
qed

theorem build_index_frequencies_witness:
  "distinct (map id' [\<lparr>id' = ''doc1'', title = ''RAG intro'', body = ''RAG connects LLMs'', tags = [], access_level = 1\<rparr>])
   \<and> (''rag'', [(''doc1'', 2)]) \<in> set (build_index [\<lparr>id' = ''doc1'', title = ''RAG intro'', body = ''RAG connects LLMs'', tags = [], access_level = 1\<rparr>])
   \<and> occurrences \<lparr>id' = ''doc1'', title = ''RAG intro'', body = ''RAG connects LLMs'', tags = [], access_level = 1\<rparr> ''rag'' = 2"
proof -
  let ?docs = "[\<lparr>id' = ''doc1'', title = ''RAG intro'', body = ''RAG connects LLMs'', tags = [], access_level = 1\<rparr>]"
  have d: "distinct (map id' ?docs)" by simp
  have m: "(''rag'', [(''doc1'', 2)]) \<in> set (build_index ?docs)" by code_simp
  show ?thesis
    using build_index_frequencies [OF d m] d m by simp
qed

section \<open>Properties of the query engine\<close>

subsection \<open>The dictionary of scores and the ranked results\<close>

lemma add_score_keys: "fst ` set (add_score d s scores) = insert d (fst ` set scores)"
  by (simp add: add_score_def dom_update)

lemma add_score_distinct:
  "distinct (map fst scores) \<Longrightarrow> distinct (map fst (add_score d s scores))"
  by (simp add: add_score_def distinct_update)

lemma score_postings_distinct:
  "score_postings id2doc ual ps scores = Inr scores' \<Longrightarrow> distinct (map fst scores)
     \<Longrightarrow> distinct (map fst scores')"
proof (induction ps arbitrary: scores)
  case Nil
  then show ?case by simp
next
  case (Cons p ps)
  obtain d s where p: "p = (d, s)" by (cases p)
  show ?case
    using Cons.prems Cons.IH [of "add_score d s scores"] Cons.IH [of scores]
    by (auto simp add: p add_score_distinct split: option.splits if_splits)
qed

lemma score_tokens_distinct:
  "score_tokens index id2doc ual ts scores = Inr scores' \<Longrightarrow> distinct (map fst scores)
     \<Longrightarrow> distinct (map fst scores')"
proof (induction ts arbitrary: scores)
  case Nil
  then show ?case by simp
next
  case (Cons t ts)
  show ?case
  proof (cases "map_of index t")
    case None
    then show ?thesis using Cons by simp
  next
    case (Some ps)
    then obtain mid where mid: "score_postings id2doc ual ps scores = Inr mid"
      and rest: "score_tokens index id2doc ual ts mid = Inr scores'"
      using Cons.prems(1) by (auto split: sum.splits)
    show ?thesis
      using Cons.IH [OF rest] score_postings_distinct [OF mid Cons.prems(2)] by simp
  qed
qed

lemma ranked_scores:
  "ranked index documents query ual = Inr rs \<Longrightarrow>
     \<exists>scores. score_tokens index (id2doc_of documents) ual (tokenize query) [] = Inr scores
       \<and> rs = sort_key sort_key_of (map (\<lambda>(d, s). \<lparr>doc_id = d, score = s\<rparr>) scores)"
  by (auto simp add: ranked_def Let_def split: sum.splits)

lemma map_doc_id_results:
  "map doc_id (map (\<lambda>(d, s). \<lparr>doc_id = d, score = s\<rparr>) scores) = map fst scores"
  by (induction scores) auto

lemma distinct_map_sort_key:
  "distinct (map f (sort_key k xs)) = distinct (map f xs)"
  by (simp add: distinct_map)

lemma ranked_distinct:
  assumes "ranked index documents query ual = Inr rs"
  shows "distinct (map doc_id rs)"
proof -
  obtain scores where sc: "score_tokens index (id2doc_of documents) ual (tokenize query) [] = Inr scores"
    and rs: "rs = sort_key sort_key_of (map (\<lambda>(d, s). \<lparr>doc_id = d, score = s\<rparr>) scores)"
    using ranked_scores [OF assms] by blast
  have "distinct (map fst scores)"
    using score_tokens_distinct [OF sc] by simp
  then have "distinct (map doc_id (map (\<lambda>(d, s). \<lparr>doc_id = d, score = s\<rparr>) scores))"
    unfolding map_doc_id_results .
  then show ?thesis
    unfolding rs distinct_map_sort_key .
qed

lemma search_ranked:
  "search index documents query m ual = Inr rs \<Longrightarrow>
     \<exists>full. ranked index documents query ual = Inr full \<and> rs = slice_to full m"
  by (auto simp add: search_def split: sum.splits)

lemma slice_to_take: "\<exists>j. slice_to xs n = take j xs"
  by (auto simp add: slice_to_def)

lemma distinct_map_take: "distinct (map f xs) \<Longrightarrow> distinct (map f (take j xs))"
  using distinct_take [of "map f xs" j] by (simp add: take_map)

text \<open>
  Claim C10. No \<open>doc_id\<close> occurs twice in the sequence that \<open>search\<close> returns.
\<close>

theorem search_no_duplicate_doc_ids:
  "search index documents query max_results user_access_level = Inr results
     \<Longrightarrow> distinct (map doc_id results)"
proof -
  assume "search index documents query max_results user_access_level = Inr results"
  then obtain full where full: "ranked index documents query user_access_level = Inr full"
    and res: "results = slice_to full max_results"
    using search_ranked by blast
  obtain j where "slice_to full max_results = take j full"
    using slice_to_take by blast
  then show ?thesis
    using ranked_distinct [OF full] res by (simp add: distinct_map_take)
qed

theorem search_no_duplicate_doc_ids_witness:
  "search [(''a'', [(''d2'', 1), (''d1'', 1)])]
     [\<lparr>id' = ''d1'', title = ''a'', body = '''', tags = [], access_level = 1\<rparr>,
      \<lparr>id' = ''d2'', title = ''a'', body = '''', tags = [], access_level = 2\<rparr>] ''a'' 5 None
     = Inr [\<lparr>doc_id = ''d1'', score = 1\<rparr>, \<lparr>doc_id = ''d2'', score = 1\<rparr>]
   \<and> distinct (map doc_id [\<lparr>doc_id = ''d1'', score = 1\<rparr>, \<lparr>doc_id = ''d2'', score = 1\<rparr>])"
proof -
  have s: "search [(''a'', [(''d2'', 1), (''d1'', 1)])]
     [\<lparr>id' = ''d1'', title = ''a'', body = '''', tags = [], access_level = 1\<rparr>,
      \<lparr>id' = ''d2'', title = ''a'', body = '''', tags = [], access_level = 2\<rparr>] ''a'' 5 None
     = Inr [\<lparr>doc_id = ''d1'', score = 1\<rparr>, \<lparr>doc_id = ''d2'', score = 1\<rparr>]"
    by code_simp
  show ?thesis
    using search_no_duplicate_doc_ids [OF s] s by simp
qed

subsection \<open>Order and length of the results\<close>

lemma sorted_wrt_strict:
  "sorted_wrt (\<lambda>a b. sort_key_of a \<le> sort_key_of b) xs \<Longrightarrow> distinct (map doc_id xs)
     \<Longrightarrow> sorted_wrt ranked_before xs"
proof (induction xs)
  case Nil
  then show ?case by simp
next
  case (Cons x xs)
  have "ranked_before x y" if "y \<in> set xs" for y
  proof -
    have "sort_key_of x \<le> sort_key_of y" and "doc_id x \<noteq> doc_id y"
      using Cons.prems that by auto
    then show ?thesis
      by (auto simp add: ranked_before_def sort_key_of_def)
  qed
  then show ?case using Cons by simp
qed

lemma ranked_sorted:
  assumes "ranked index documents query ual = Inr rs"
  shows "sorted_wrt ranked_before rs"
proof -
  obtain scores where
    rs: "rs = sort_key sort_key_of (map (\<lambda>(d, s). \<lparr>doc_id = d, score = s\<rparr>) scores)"
    using ranked_scores [OF assms] by blast
  have "sorted (map sort_key_of rs)"
    unfolding rs by (rule sorted_sort_key)
  then have "sorted_wrt (\<lambda>a b. sort_key_of a \<le> sort_key_of b) rs"
    by (simp add: sorted_map)
  then show ?thesis
    using ranked_distinct [OF assms] by (rule sorted_wrt_strict)
qed

lemma length_slice_to: "0 \<le> n \<Longrightarrow> int (length (slice_to xs n)) \<le> n"
  by (simp add: slice_to_def)

text \<open>
  Claim C5, amended. The sequence that \<open>search\<close> returns is sorted by descending score, equal
  scores by ascending \<open>doc_id\<close>, and when \<open>max_results\<close> is not negative its length is at
  most \<open>max_results\<close>.
\<close>

theorem search_sorted_and_bounded:
  assumes "search index documents query max_results user_access_level = Inr results"
  shows "sorted_wrt ranked_before results
         \<and> (0 \<le> max_results \<longrightarrow> int (length results) \<le> max_results)"
proof -
  obtain full where full: "ranked index documents query user_access_level = Inr full"
    and res: "results = slice_to full max_results"
    using search_ranked [OF assms] by blast
  obtain j where j: "slice_to full max_results = take j full"
    using slice_to_take by blast
  have "sorted_wrt ranked_before (take j full)"
    using ranked_sorted [OF full] by (rule sorted_wrt_take)
  then show ?thesis
    using res j length_slice_to [of max_results full] by simp
qed

theorem search_sorted_and_bounded_witness:
  "search [(''a'', [(''d1'', 1), (''d2'', 3), (''d3'', 2)])]
     [\<lparr>id' = ''d1'', title = ''a'', body = '''', tags = [], access_level = 0\<rparr>,
      \<lparr>id' = ''d2'', title = ''a'', body = '''', tags = [], access_level = 0\<rparr>,
      \<lparr>id' = ''d3'', title = ''a'', body = '''', tags = [], access_level = 0\<rparr>] ''a'' 3 (Some 2)
     = Inr [\<lparr>doc_id = ''d2'', score = 3\<rparr>, \<lparr>doc_id = ''d3'', score = 2\<rparr>, \<lparr>doc_id = ''d1'', score = 1\<rparr>]
   \<and> sorted_wrt ranked_before [\<lparr>doc_id = ''d2'', score = 3\<rparr>, \<lparr>doc_id = ''d3'', score = 2\<rparr>, \<lparr>doc_id = ''d1'', score = 1\<rparr>]
   \<and> (0 :: int) \<le> 3
   \<and> int (length [\<lparr>doc_id = ''d2'', score = 3\<rparr>, \<lparr>doc_id = ''d3'', score = 2\<rparr>, \<lparr>doc_id = ''d1'', score = 1\<rparr>]) \<le> 3"
proof -
  have s: "search [(''a'', [(''d1'', 1), (''d2'', 3), (''d3'', 2)])]
     [\<lparr>id' = ''d1'', title = ''a'', body = '''', tags = [], access_level = 0\<rparr>,
      \<lparr>id' = ''d2'', title = ''a'', body = '''', tags = [], access_level = 0\<rparr>,
      \<lparr>id' = ''d3'', title = ''a'', body = '''', tags = [], access_level = 0\<rparr>] ''a'' 3 (Some 2)
     = Inr [\<lparr>doc_id = ''d2'', score = 3\<rparr>, \<lparr>doc_id = ''d3'', score = 2\<rparr>, \<lparr>doc_id = ''d1'', score = 1\<rparr>]"
    by code_simp
  show ?thesis
    using search_sorted_and_bounded [OF s] s by simp
qed

text \<open>
  Claim C5 as stated fails for a negative \<open>max_results\<close>: the slice \<^verbatim>\<open>results[:-2]\<close> of three
  results keeps one, and 1 exceeds \<open>-2\<close>.
\<close>

theorem search_length_counterexample:
  "search [(''a'', [(''d1'', 1), (''d2'', 3), (''d3'', 2)])]
     [\<lparr>id' = ''d1'', title = ''a'', body = '''', tags = [], access_level = 0\<rparr>,
      \<lparr>id' = ''d2'', title = ''a'', body = '''', tags = [], access_level = 0\<rparr>,
      \<lparr>id' = ''d3'', title = ''a'', body = '''', tags = [], access_level = 0\<rparr>] ''a'' (- 2) None
     = Inr [\<lparr>doc_id = ''d2'', score = 3\<rparr>]
   \<and> \<not> int (length [\<lparr>doc_id = ''d2'', score = 3\<rparr>]) \<le> - 2"
  by code_simp

subsection \<open>Which documents are scored\<close>

lemma score_postings_keys:
  "score_postings id2doc ual ps scores = Inr scores' \<Longrightarrow>
     fst ` set scores' \<subseteq> fst ` set scores \<union> {d \<in> fst ` set ps. admitted id2doc ual d}"
proof (induction ps arbitrary: scores)
  case Nil
  then show ?case by simp
next
  case (Cons p ps)
  obtain d s where p: "p = (d, s)" by (cases p)
  obtain doc where doc: "map_of id2doc d = Some doc"
    using Cons.prems by (cases "map_of id2doc d") (simp_all add: p)
  show ?case
  proof (cases "admitted id2doc ual d")
    case True
    then have "score_postings id2doc ual ps (add_score d s scores) = Inr scores'"
      using Cons.prems doc by (auto simp add: p admitted_def split: option.splits if_splits)
    from Cons.IH [OF this] show ?thesis
      using True by (auto simp add: p add_score_keys)
  next
    case False
    then have "score_postings id2doc ual ps scores = Inr scores'"
      using Cons.prems doc by (auto simp add: p admitted_def split: option.splits if_splits)
    from Cons.IH [OF this] show ?thesis
      by (auto simp add: p)
  qed
qed

lemma score_tokens_keys:
  "score_tokens index id2doc ual ts scores = Inr scores' \<Longrightarrow>
     fst ` set scores' \<subseteq> fst ` set scores \<union>
       {d. admitted id2doc ual d \<and>
           (\<exists>t \<in> set ts. case map_of index t of None \<Rightarrow> False
                                | Some ps \<Rightarrow> d \<in> fst ` set ps)}"
proof (induction ts arbitrary: scores)
  case Nil
  then show ?case by simp
next
  case (Cons t ts)
  show ?case
  proof (cases "map_of index t")
    case None
    then have "score_tokens index id2doc ual ts scores = Inr scores'"
      using Cons.prems by simp
    from Cons.IH [OF this] show ?thesis by auto
  next
    case (Some ps)
    then obtain mid where mid: "score_postings id2doc ual ps scores = Inr mid"
      and rest: "score_tokens index id2doc ual ts mid = Inr scores'"
      using Cons.prems by (auto split: sum.splits)
    show ?thesis
      using Cons.IH [OF rest] score_postings_keys [OF mid] Some by auto
  qed
qed

lemma add_score_positive:
  assumes "\<forall>(d, v) \<in> set scores. 1 \<le> v" and "1 \<le> s"
  shows "\<forall>(d, v) \<in> set (add_score d' s scores). 1 \<le> v"
proof -
  have "1 \<le> (case map_of scores d' of None \<Rightarrow> 0 | Some v \<Rightarrow> v) + s"
    using assms by (auto split: option.splits dest!: map_of_SomeD)
  then show ?thesis
    using assms(1) set_update_subset [of d' _ scores] unfolding add_score_def by blast
qed

lemma score_postings_positive:
  "score_postings id2doc ual ps scores = Inr scores' \<Longrightarrow> \<forall>(d, n) \<in> set ps. 1 \<le> n
     \<Longrightarrow> \<forall>(d, v) \<in> set scores. 1 \<le> v \<Longrightarrow> \<forall>(d, v) \<in> set scores'. 1 \<le> v"
proof (induction ps arbitrary: scores)
  case Nil
  then show ?case by simp
next
  case (Cons p ps)
  obtain d s where p: "p = (d, s)" by (cases p)
  have s: "1 \<le> s" and ps: "\<forall>(d, n) \<in> set ps. 1 \<le> n"
    using Cons.prems(2) by (auto simp add: p)
  have "score_postings id2doc ual ps (add_score d s scores) = Inr scores'
        \<or> score_postings id2doc ual ps scores = Inr scores'"
    using Cons.prems(1) by (auto simp add: p split: option.splits if_splits)
  then show ?case
    using Cons.IH [OF _ ps] add_score_positive [OF Cons.prems(3) s] Cons.prems(3) by blast
qed

lemma score_tokens_positive:
  "score_tokens index id2doc ual ts scores = Inr scores' \<Longrightarrow> positive_index index
     \<Longrightarrow> \<forall>(d, v) \<in> set scores. 1 \<le> v \<Longrightarrow> \<forall>(d, v) \<in> set scores'. 1 \<le> v"
proof (induction ts arbitrary: scores)
  case Nil
  then show ?case by simp
next
  case (Cons t ts)
  show ?case
  proof (cases "map_of index t")
    case None
    then show ?thesis using Cons by simp
  next
    case (Some ps)
    then obtain mid where mid: "score_postings id2doc ual ps scores = Inr mid"
      and rest: "score_tokens index id2doc ual ts mid = Inr scores'"
      using Cons.prems(1) by (auto split: sum.splits)
    have "(t, ps) \<in> set index"
      using Some by (rule map_of_SomeD)
    then have "\<forall>(d, n) \<in> set ps. 1 \<le> n"
      using Cons.prems(2) by (auto simp add: positive_index_def)
    from score_postings_positive [OF mid this Cons.prems(3)]
    show ?thesis
      using Cons.IH [OF rest Cons.prems(2)] by blast
  qed
qed

lemma ranked_mem:
  assumes "ranked index documents query ual = Inr rs" and "r \<in> set rs"
  shows "\<exists>scores. score_tokens index (id2doc_of documents) ual (tokenize query) [] = Inr scores
           \<and> (doc_id r, score r) \<in> set scores"
proof -
  obtain scores where sc: "score_tokens index (id2doc_of documents) ual (tokenize query) [] = Inr scores"
    and rs: "rs = sort_key sort_key_of (map (\<lambda>(d, s). \<lparr>doc_id = d, score = s\<rparr>) scores)"
    using ranked_scores [OF assms(1)] by blast
  have "r \<in> set (map (\<lambda>(d, s). \<lparr>doc_id = d, score = s\<rparr>) scores)"
    using assms(2) by (simp add: rs)
  then have "(doc_id r, score r) \<in> set scores"
    by auto
  then show ?thesis using sc by blast
qed

lemma search_mem_ranked:
  assumes "search index documents query m ual = Inr results" and "r \<in> set results"
  shows "\<exists>full. ranked index documents query ual = Inr full \<and> r \<in> set full"
proof -
  obtain full where full: "ranked index documents query ual = Inr full"
    and res: "results = slice_to full m"
    using search_ranked [OF assms(1)] by blast
  obtain j where "slice_to full m = take j full"
    using slice_to_take by blast
  then have "r \<in> set full"
    using assms(2) res by (auto dest: in_set_takeD)
  then show ?thesis using full by blast
qed

lemma search_results_admitted:
  assumes "search index documents query m ual = Inr results" and "r \<in> set results"
  shows "admitted (id2doc_of documents) ual (doc_id r) \<and> matched index query (doc_id r)"
proof -
  obtain full where "ranked index documents query ual = Inr full" and "r \<in> set full"
    using search_mem_ranked [OF assms] by blast
  then obtain scores where
    sc: "score_tokens index (id2doc_of documents) ual (tokenize query) [] = Inr scores"
    and mem: "(doc_id r, score r) \<in> set scores"
    using ranked_mem by blast
  have "doc_id r \<in> fst ` set scores"
    using mem by force
  then show ?thesis
    using score_tokens_keys [OF sc] by (auto simp add: matched_def)
qed

lemma search_respects_nonzero_level:
  assumes "search index documents query m (Some l) = Inr results" and "r \<in> set results"
    and "l \<noteq> 0"
  shows "\<exists>doc. map_of (id2doc_of documents) (doc_id r) = Some doc
           \<and> (access_level doc = 0 \<or> access_level doc \<le> l)"
  using search_results_admitted [OF assms(1,2)] assms(3)
  by (auto simp add: admitted_def split: option.splits)

lemma search_scores_positive:
  assumes "search index documents query m ual = Inr results" and "r \<in> set results"
    and "positive_index index"
  shows "1 \<le> score r"
proof -
  obtain full where "ranked index documents query ual = Inr full" and "r \<in> set full"
    using search_mem_ranked [OF assms(1,2)] by blast
  then obtain scores where
    sc: "score_tokens index (id2doc_of documents) ual (tokenize query) [] = Inr scores"
    and mem: "(doc_id r, score r) \<in> set scores"
    using ranked_mem by blast
  show ?thesis
    using score_tokens_positive [OF sc assms(3)] mem by auto
qed

lemma search_built_index_scores_positive:
  assumes "search (build_index indexed) documents query m ual = Inr results"
    and "r \<in> set results"
  shows "1 \<le> score r"
  using assms build_index_positive by (rule search_scores_positive)

text \<open>
  Claim C9. Every result that \<open>search\<close> returns is listed in the index under at least one
  token of the query, whatever the index; and for an inverted index, in which every stored
  frequency is at least 1 (as in every index that \<open>build_index\<close> returns), every returned
  score is at least 1, so no document with an accumulated score of 0 is returned.
\<close>

theorem search_results_matched:
  assumes "search index documents query max_results user_access_level = Inr results"
    and "r \<in> set results"
  shows "matched index query (doc_id r) \<and> (positive_index index \<longrightarrow> 1 \<le> score r)"
  using search_results_admitted [OF assms] search_scores_positive [OF assms] by simp

theorem search_results_matched_witness:
  "search (build_index [\<lparr>id' = ''d1'', title = ''rag intro'', body = ''rag'', tags = [], access_level = 1\<rparr>,
      \<lparr>id' = ''d2'', title = ''rag'', body = ''llm'', tags = [], access_level = 2\<rparr>])
     [\<lparr>id' = ''d1'', title = ''rag intro'', body = ''rag'', tags = [], access_level = 1\<rparr>,
      \<lparr>id' = ''d2'', title = ''rag'', body = ''llm'', tags = [], access_level = 2\<rparr>] ''rag llm'' 5 (Some 2)
     = Inr [\<lparr>doc_id = ''d1'', score = 2\<rparr>, \<lparr>doc_id = ''d2'', score = 2\<rparr>]
   \<and> \<lparr>doc_id = ''d2'', score = 2\<rparr> \<in> set [\<lparr>doc_id = ''d1'', score = 2\<rparr>, \<lparr>doc_id = ''d2'', score = 2\<rparr>]
   \<and> positive_index (build_index [\<lparr>id' = ''d1'', title = ''rag intro'', body = ''rag'', tags = [], access_level = 1\<rparr>,
      \<lparr>id' = ''d2'', title = ''rag'', body = ''llm'', tags = [], access_level = 2\<rparr>])
   \<and> matched (build_index [\<lparr>id' = ''d1'', title = ''rag intro'', body = ''rag'', tags = [], access_level = 1\<rparr>,
      \<lparr>id' = ''d2'', title = ''rag'', body = ''llm'', tags = [], access_level = 2\<rparr>]) ''rag llm'' ''d2''
   \<and> 1 \<le> score \<lparr>doc_id = ''d2'', score = 2\<rparr>"
proof -
  let ?docs = "[\<lparr>id' = ''d1'', title = ''rag intro'', body = ''rag'', tags = [], access_level = 1\<rparr>,
      \<lparr>id' = ''d2'', title = ''rag'', body = ''llm'', tags = [], access_level = 2\<rparr>]"
  have s: "search (build_index ?docs) ?docs ''rag llm'' 5 (Some 2)
     = Inr [\<lparr>doc_id = ''d1'', score = 2\<rparr>, \<lparr>doc_id = ''d2'', score = 2\<rparr>]"
    by code_simp
  have m: "\<lparr>doc_id = ''d2'', score = 2\<rparr> \<in> set [\<lparr>doc_id = ''d1'', score = 2\<rparr>, \<lparr>doc_id = ''d2'', score = 2\<rparr>]"
    by simp
  have p: "positive_index (build_index ?docs)"
    by code_simp
  show ?thesis
    using search_results_matched [OF s m] s p by simp
qed

text \<open>
  The bound on the score rests on the frequencies of the index, not on a test in \<open>search\<close>:
  given a dictionary that stores the frequency 0, which is not an inverted index, \<open>search\<close>
  returns the matched document with score 0.
\<close>

lemma search_zero_frequency_scored:
  "search [(''a'', [(''d'', 0)])]
     [\<lparr>id' = ''d'', title = ''b'', body = [], tags = [], access_level = 0\<rparr>] ''a'' 5 None
   = Inr [\<lparr>doc_id = ''d'', score = 0\<rparr>]"
  by code_simp

subsection \<open>When the lookup of a document fails\<close>

lemma id2doc_fold_keys:
  "fst ` set (fold (\<lambda>doc m. AList.update (id' doc) doc m) documents acc)
     = fst ` set acc \<union> id' ` set documents"
  by (induction documents arbitrary: acc) (auto simp add: dom_update)

lemma id2doc_keys: "fst ` set (id2doc_of documents) = id' ` set documents"
  by (simp add: id2doc_of_def id2doc_fold_keys)

lemma id2doc_None: "map_of (id2doc_of documents) d = None \<longleftrightarrow> d \<notin> id' ` set documents"
  by (simp add: map_of_eq_None_iff id2doc_keys)

lemma score_postings_returns:
  "\<forall>d \<in> fst ` set ps. map_of id2doc d \<noteq> None
     \<Longrightarrow> \<exists>scores'. score_postings id2doc ual ps scores = Inr scores'"
proof (induction ps arbitrary: scores)
  case Nil
  then show ?case by simp
next
  case (Cons p ps)
  obtain d s where p: "p = (d, s)" by (cases p)
  obtain doc where doc: "map_of id2doc d = Some doc"
    using Cons.prems by (auto simp add: p)
  have rest: "\<forall>d \<in> fst ` set ps. map_of id2doc d \<noteq> None"
    using Cons.prems by simp
  show ?case
    using Cons.IH [OF rest, of "add_score d s scores"] Cons.IH [OF rest, of scores] doc
    by (cases ual) (auto simp add: p)
qed

lemma score_postings_raises:
  "\<exists>d \<in> fst ` set ps. map_of id2doc d = None
     \<Longrightarrow> score_postings id2doc ual ps scores = Inl KeyError"
proof (induction ps arbitrary: scores)
  case Nil
  then show ?case by simp
next
  case (Cons p ps)
  obtain d s where p: "p = (d, s)" by (cases p)
  show ?case
  proof (cases "map_of id2doc d")
    case None
    then show ?thesis by (simp add: p)
  next
    case (Some doc)
    then have "\<exists>d \<in> fst ` set ps. map_of id2doc d = None"
      using Cons.prems by (auto simp add: p)
    then show ?thesis
      using Cons.IH Some by (cases ual) (auto simp add: p)
  qed
qed

lemma score_tokens_returns:
  "\<forall>t \<in> set ts. (case map_of index t of None \<Rightarrow> True
      | Some ps \<Rightarrow> \<forall>d \<in> fst ` set ps. map_of id2doc d \<noteq> None)
     \<Longrightarrow> \<exists>scores'. score_tokens index id2doc ual ts scores = Inr scores'"
proof (induction ts arbitrary: scores)
  case Nil
  then show ?case by simp
next
  case (Cons t ts)
  show ?case
  proof (cases "map_of index t")
    case None
    then show ?thesis using Cons by simp
  next
    case (Some ps)
    then have "\<forall>d \<in> fst ` set ps. map_of id2doc d \<noteq> None"
      using Cons.prems by simp
    then obtain mid where "score_postings id2doc ual ps scores = Inr mid"
      using score_postings_returns by blast
    then show ?thesis
      using Cons.IH [of mid] Cons.prems Some by simp
  qed
qed

lemma score_tokens_raises:
  "\<exists>t \<in> set ts. (case map_of index t of None \<Rightarrow> False
      | Some ps \<Rightarrow> \<exists>d \<in> fst ` set ps. map_of id2doc d = None)
     \<Longrightarrow> score_tokens index id2doc ual ts scores = Inl KeyError"
proof (induction ts arbitrary: scores)
  case Nil
  then show ?case by simp
next
  case (Cons t ts)
  show ?case
  proof (cases "map_of index t")
    case None
    then show ?thesis using Cons by simp
  next
    case (Some ps)
    show ?thesis
    proof (cases "\<exists>d \<in> fst ` set ps. map_of id2doc d = None")
      case True
      then show ?thesis
        using Some score_postings_raises [of ps id2doc ual scores] by simp
    next
      case False
      then have later: "\<exists>t \<in> set ts. case map_of index t of None \<Rightarrow> False
          | Some ps \<Rightarrow> \<exists>d \<in> fst ` set ps. map_of id2doc d = None"
        using Cons.prems Some by auto
      from False have "\<forall>d \<in> fst ` set ps. map_of id2doc d \<noteq> None"
        by simp
      then obtain mid where "score_postings id2doc ual ps scores = Inr mid"
        using score_postings_returns [of ps id2doc ual scores] by auto
      then show ?thesis
        using Cons.IH [OF later] Some by simp
    qed
  qed
qed

text \<open>
  Claim C2, amended. \<open>search\<close> returns a sequence exactly when every document id that the
  index lists under a token of the query is the id of one of the documents; otherwise it
  raises \<^verbatim>\<open>KeyError\<close>.
\<close>

theorem search_raises_only_on_unknown_id:
  "(known_ids index documents query
      \<longrightarrow> (\<exists>results. search index documents query max_results user_access_level = Inr results))
   \<and> (\<not> known_ids index documents query
      \<longrightarrow> search index documents query max_results user_access_level = Inl KeyError)"
proof (intro conjI impI)
  assume "known_ids index documents query"
  then have "\<forall>t \<in> set (tokenize query). case map_of index t of None \<Rightarrow> True
      | Some ps \<Rightarrow> \<forall>d \<in> fst ` set ps. map_of (id2doc_of documents) d \<noteq> None"
    by (auto simp add: known_ids_def id2doc_None split: option.splits)
  then obtain scores where
    "score_tokens index (id2doc_of documents) user_access_level (tokenize query) [] = Inr scores"
    using score_tokens_returns by blast
  then show "\<exists>results. search index documents query max_results user_access_level = Inr results"
    by (simp add: search_def ranked_def Let_def)
next
  assume "\<not> known_ids index documents query"
  then have "\<exists>t \<in> set (tokenize query). case map_of index t of None \<Rightarrow> False
      | Some ps \<Rightarrow> \<exists>d \<in> fst ` set ps. map_of (id2doc_of documents) d = None"
    by (auto simp add: known_ids_def id2doc_None split: option.splits)
  then have
    "score_tokens index (id2doc_of documents) user_access_level (tokenize query) [] = Inl KeyError"
    by (rule score_tokens_raises)
  then show "search index documents query max_results user_access_level = Inl KeyError"
    by (simp add: search_def ranked_def Let_def)
qed

theorem search_raises_only_on_unknown_id_witness:
  "known_ids [(''a'', [(''d2'', 1), (''d1'', 1)])]
     [\<lparr>id' = ''d1'', title = ''a'', body = '''', tags = [], access_level = 1\<rparr>,
      \<lparr>id' = ''d2'', title = ''a'', body = '''', tags = [], access_level = 2\<rparr>] ''a''
   \<and> (\<exists>results. search [(''a'', [(''d2'', 1), (''d1'', 1)])]
     [\<lparr>id' = ''d1'', title = ''a'', body = '''', tags = [], access_level = 1\<rparr>,
      \<lparr>id' = ''d2'', title = ''a'', body = '''', tags = [], access_level = 2\<rparr>] ''a'' 5 (Some 1) = Inr results)
   \<and> \<not> known_ids [(''a'', [(''d2'', 1), (''d1'', 1)])] [\<lparr>id' = ''d1'', title = ''a'', body = '''', tags = [], access_level = 1\<rparr>] ''a''
   \<and> search [(''a'', [(''d2'', 1), (''d1'', 1)])] [\<lparr>id' = ''d1'', title = ''a'', body = '''', tags = [], access_level = 1\<rparr>] ''a'' 5 (Some 1) = Inl KeyError"
proof -
  have k: "known_ids [(''a'', [(''d2'', 1), (''d1'', 1)])]
     [\<lparr>id' = ''d1'', title = ''a'', body = '''', tags = [], access_level = 1\<rparr>,
      \<lparr>id' = ''d2'', title = ''a'', body = '''', tags = [], access_level = 2\<rparr>] ''a''"
    by code_simp
  have n: "\<not> known_ids [(''a'', [(''d2'', 1), (''d1'', 1)])] [\<lparr>id' = ''d1'', title = ''a'', body = '''', tags = [], access_level = 1\<rparr>] ''a''"
    by code_simp
  show ?thesis
    using search_raises_only_on_unknown_id [of "[(''a'', [(''d2'', 1), (''d1'', 1)])]"
        "[\<lparr>id' = ''d1'', title = ''a'', body = '''', tags = [], access_level = 1\<rparr>,
      \<lparr>id' = ''d2'', title = ''a'', body = '''', tags = [], access_level = 2\<rparr>]" "''a''" 5 "Some 1"]
      search_raises_only_on_unknown_id [of "[(''a'', [(''d2'', 1), (''d1'', 1)])]" "[\<lparr>id' = ''d1'', title = ''a'', body = '''', tags = [], access_level = 1\<rparr>]" "''a''" 5 "Some 1"] k n
    by blast
qed

text \<open>
  Claim C2 as stated fails: with an index that lists \<^verbatim>\<open>doc1\<close> under \<^verbatim>\<open>rag\<close> and an empty
  list of documents, the query \<^verbatim>\<open>rag\<close> raises \<^verbatim>\<open>KeyError\<close>.
\<close>

theorem search_unknown_id_counterexample:
  "search [(''rag'', [(''doc1'', 1)])] [] ''rag'' 5 None = Inl KeyError"
  by code_simp

subsection \<open>Documents of access level 0\<close>

lemma filter_update:
  "filter (\<lambda>p. P (fst p)) (AList.update k v al)
     = (if P k then AList.update k v (filter (\<lambda>p. P (fst p)) al)
        else filter (\<lambda>p. P (fst p)) al)"
  by (induction al) auto

lemma map_of_filter_key:
  "P k \<Longrightarrow> map_of (filter (\<lambda>p. P (fst p)) al) k = map_of al k"
  by (induction al) auto

lemma filter_add_score:
  "filter (\<lambda>p. P (fst p)) (add_score d s scores)
     = (if P d then add_score d s (filter (\<lambda>p. P (fst p)) scores)
        else filter (\<lambda>p. P (fst p)) scores)"
  by (simp add: add_score_def filter_update map_of_filter_key)

lemma score_postings_filter:
  "score_postings id2doc None ps scores = Inr all \<Longrightarrow>
     score_postings id2doc ual ps (filter (\<lambda>p. admitted id2doc ual (fst p)) scores)
       = Inr (filter (\<lambda>p. admitted id2doc ual (fst p)) all)"
proof (induction ps arbitrary: scores)
  case Nil
  then show ?case by simp
next
  case (Cons p ps)
  obtain d s where p: "p = (d, s)" by (cases p)
  obtain doc where doc: "map_of id2doc d = Some doc"
    using Cons.prems by (cases "map_of id2doc d") (simp_all add: p)
  have "score_postings id2doc None ps (add_score d s scores) = Inr all"
    using Cons.prems doc by (simp add: p)
  from Cons.IH [OF this] have IH:
    "score_postings id2doc ual ps
       (filter (\<lambda>p. admitted id2doc ual (fst p)) (add_score d s scores))
     = Inr (filter (\<lambda>p. admitted id2doc ual (fst p)) all)" .
  show ?case
  proof (cases "admitted id2doc ual d")
    case True
    then have "score_postings id2doc ual (p # ps) (filter (\<lambda>p. admitted id2doc ual (fst p)) scores)
        = score_postings id2doc ual ps
            (add_score d s (filter (\<lambda>p. admitted id2doc ual (fst p)) scores))"
      using doc by (cases ual) (auto simp add: p admitted_def)
    then show ?thesis
      using IH True by (simp add: filter_add_score)
  next
    case False
    then have "score_postings id2doc ual (p # ps) (filter (\<lambda>p. admitted id2doc ual (fst p)) scores)
        = score_postings id2doc ual ps (filter (\<lambda>p. admitted id2doc ual (fst p)) scores)"
      using doc by (cases ual) (auto simp add: p admitted_def)
    then show ?thesis
      using IH False by (simp add: filter_add_score)
  qed
qed

lemma score_tokens_filter:
  "score_tokens index id2doc None ts scores = Inr all \<Longrightarrow>
     score_tokens index id2doc ual ts (filter (\<lambda>p. admitted id2doc ual (fst p)) scores)
       = Inr (filter (\<lambda>p. admitted id2doc ual (fst p)) all)"
proof (induction ts arbitrary: scores)
  case Nil
  then show ?case by simp
next
  case (Cons t ts)
  show ?case
  proof (cases "map_of index t")
    case None
    then show ?thesis using Cons by simp
  next
    case (Some ps)
    then obtain mid where mid: "score_postings id2doc None ps scores = Inr mid"
      and rest: "score_tokens index id2doc None ts mid = Inr all"
      using Cons.prems by (auto split: sum.splits)
    show ?thesis
      using Cons.IH [OF rest] score_postings_filter [OF mid, of ual] Some by simp
  qed
qed

lemma ranked_filter:
  assumes "ranked index documents query None = Inr all"
  shows "ranked index documents query ual
           = Inr (filter (\<lambda>r. admitted (id2doc_of documents) ual (doc_id r)) all)"
proof -
  obtain scores where
    sc: "score_tokens index (id2doc_of documents) None (tokenize query) [] = Inr scores"
    and rs: "all = sort_key sort_key_of (map (\<lambda>(d, s). \<lparr>doc_id = d, score = s\<rparr>) scores)"
    using ranked_scores [OF assms] by blast
  let ?adm = "\<lambda>p. admitted (id2doc_of documents) ual (fst p)"
  have "score_tokens index (id2doc_of documents) ual (tokenize query) [] = Inr (filter ?adm scores)"
    using score_tokens_filter [OF sc, of ual] by simp
  moreover have "map (\<lambda>(d, s). \<lparr>doc_id = d, score = s\<rparr>) (filter ?adm scores)
      = filter (\<lambda>r. admitted (id2doc_of documents) ual (doc_id r))
          (map (\<lambda>(d, s). \<lparr>doc_id = d, score = s\<rparr>) scores)"
    by (induction scores) auto
  ultimately show ?thesis
    by (simp add: ranked_def Let_def rs filter_sort)
qed

lemma mem_take_filter:
  "x \<in> set (take n xs) \<Longrightarrow> P x \<Longrightarrow> x \<in> set (take n (filter P xs))"
proof (induction xs arbitrary: n)
  case Nil
  then show ?case by simp
next
  case (Cons y ys)
  show ?case
  proof (cases n)
    case 0
    then show ?thesis using Cons.prems by simp
  next
    case (Suc k)
    show ?thesis
    proof (cases "x = y")
      case True
      then show ?thesis using Cons.prems Suc by simp
    next
      case False
      then have "x \<in> set (take k ys)"
        using Cons.prems Suc by simp
      then have "x \<in> set (take k (filter P ys))"
        using Cons.IH Cons.prems(2) by blast
      moreover have "set (take k (filter P ys)) \<subseteq> set (take (Suc k) (filter P ys))"
        by (rule set_take_subset_set_take) simp
      ultimately show ?thesis
        using Suc by auto
    qed
  qed
qed

text \<open>
  Claim C8. A document of access level 0 is never excluded by the access check: whatever
  \<open>user_access_level\<close> is, it is among the ranked results whenever it is among those of the
  unrestricted query, and for a \<open>max_results\<close> that is not negative it is returned by
  \<open>search\<close> whenever the unrestricted \<open>search\<close> returns it.
\<close>

theorem level_zero_never_excluded:
  assumes "map_of (id2doc_of documents) (doc_id r) = Some doc" and "access_level doc = 0"
  shows "(ranked index documents query None = Inr all \<and> r \<in> set all
            \<longrightarrow> (\<exists>rs. ranked index documents query user_access_level = Inr rs \<and> r \<in> set rs))
         \<and> (0 \<le> max_results \<and> search index documents query max_results None = Inr results
              \<and> r \<in> set results
            \<longrightarrow> (\<exists>rs. search index documents query max_results user_access_level = Inr rs
                      \<and> r \<in> set rs))"
proof (intro conjI impI)
  have adm: "admitted (id2doc_of documents) user_access_level (doc_id r)"
    using assms by (simp add: admitted_def)
  {
    assume "ranked index documents query None = Inr all \<and> r \<in> set all"
    then show "\<exists>rs. ranked index documents query user_access_level = Inr rs \<and> r \<in> set rs"
      using ranked_filter [of index documents query all user_access_level] adm by simp
  next
    assume a: "0 \<le> max_results \<and> search index documents query max_results None = Inr results
              \<and> r \<in> set results"
    then obtain full where full: "ranked index documents query None = Inr full"
      and res: "results = slice_to full max_results"
      using search_ranked by blast
    have "slice_to full max_results = take (nat max_results) full"
      using a by (simp add: slice_to_def)
    then have "r \<in> set (take (nat max_results) full)"
      using a res by simp
    then have "r \<in> set (take (nat max_results)
        (filter (\<lambda>r. admitted (id2doc_of documents) user_access_level (doc_id r)) full))"
      using adm by (rule mem_take_filter)
    then show "\<exists>rs. search index documents query max_results user_access_level = Inr rs
                      \<and> r \<in> set rs"
      using a ranked_filter [OF full, of user_access_level]
      by (simp add: search_def slice_to_def)
  }
qed

theorem level_zero_never_excluded_witness:
  "map_of (id2doc_of [\<lparr>id' = ''d0'', title = ''a'', body = '''', tags = [], access_level = 0\<rparr>,
      \<lparr>id' = ''d5'', title = ''a a'', body = '''', tags = [], access_level = 5\<rparr>]) (doc_id \<lparr>doc_id = ''d0'', score = 1\<rparr>) = Some \<lparr>id' = ''d0'', title = ''a'', body = '''', tags = [], access_level = 0\<rparr>
   \<and> access_level \<lparr>id' = ''d0'', title = ''a'', body = '''', tags = [], access_level = 0\<rparr> = 0
   \<and> ranked [(''a'', [(''d0'', 1), (''d5'', 2)])]
       [\<lparr>id' = ''d0'', title = ''a'', body = '''', tags = [], access_level = 0\<rparr>,
      \<lparr>id' = ''d5'', title = ''a a'', body = '''', tags = [], access_level = 5\<rparr>] ''a'' None = Inr [\<lparr>doc_id = ''d5'', score = 2\<rparr>, \<lparr>doc_id = ''d0'', score = 1\<rparr>]
   \<and> \<lparr>doc_id = ''d0'', score = 1\<rparr> \<in> set [\<lparr>doc_id = ''d5'', score = 2\<rparr>, \<lparr>doc_id = ''d0'', score = 1\<rparr>]
   \<and> (0 :: int) \<le> 2
   \<and> search [(''a'', [(''d0'', 1), (''d5'', 2)])]
       [\<lparr>id' = ''d0'', title = ''a'', body = '''', tags = [], access_level = 0\<rparr>,
      \<lparr>id' = ''d5'', title = ''a a'', body = '''', tags = [], access_level = 5\<rparr>] ''a'' 2 None = Inr [\<lparr>doc_id = ''d5'', score = 2\<rparr>, \<lparr>doc_id = ''d0'', score = 1\<rparr>]
   \<and> (\<exists>rs. ranked [(''a'', [(''d0'', 1), (''d5'', 2)])]
       [\<lparr>id' = ''d0'', title = ''a'', body = '''', tags = [], access_level = 0\<rparr>,
      \<lparr>id' = ''d5'', title = ''a a'', body = '''', tags = [], access_level = 5\<rparr>] ''a'' (Some 0) = Inr rs \<and> \<lparr>doc_id = ''d0'', score = 1\<rparr> \<in> set rs)
   \<and> (\<exists>rs. search [(''a'', [(''d0'', 1), (''d5'', 2)])]
       [\<lparr>id' = ''d0'', title = ''a'', body = '''', tags = [], access_level = 0\<rparr>,
      \<lparr>id' = ''d5'', title = ''a a'', body = '''', tags = [], access_level = 5\<rparr>] ''a'' 2 (Some 1) = Inr rs \<and> \<lparr>doc_id = ''d0'', score = 1\<rparr> \<in> set rs)"
proof -
  let ?docs = "[\<lparr>id' = ''d0'', title = ''a'', body = '''', tags = [], access_level = 0\<rparr>,
      \<lparr>id' = ''d5'', title = ''a a'', body = '''', tags = [], access_level = 5\<rparr>]"
  let ?index = "[(''a'', [(''d0'', 1), (''d5'', 2)])]"
  let ?r = "\<lparr>doc_id = ''d0'', score = 1\<rparr>"
  let ?all = "[\<lparr>doc_id = ''d5'', score = 2\<rparr>, \<lparr>doc_id = ''d0'', score = 1\<rparr>]"
  have l: "map_of (id2doc_of ?docs) (doc_id ?r) = Some \<lparr>id' = ''d0'', title = ''a'', body = '''', tags = [], access_level = 0\<rparr>"
    by code_simp
  have z: "access_level \<lparr>id' = ''d0'', title = ''a'', body = '''', tags = [], access_level = 0\<rparr> = 0"
    by simp
  have rk: "ranked ?index ?docs ''a'' None = Inr ?all"
    by code_simp
  have s: "search ?index ?docs ''a'' 2 None = Inr ?all"
    by code_simp
  have m: "?r \<in> set ?all"
    by simp
  have "\<exists>rs. ranked ?index ?docs ''a'' (Some 0) = Inr rs \<and> ?r \<in> set rs"
    using level_zero_never_excluded [OF l z, of ?index "''a''" ?all "Some 0" 2 ?all] rk m
    by blast
  moreover have "\<exists>rs. search ?index ?docs ''a'' 2 (Some 1) = Inr rs \<and> ?r \<in> set rs"
    using level_zero_never_excluded [OF l z, of ?index "''a''" ?all "Some 1" 2 ?all] s m
    by simp
  ultimately show ?thesis
    using l z rk s m by simp
qed

subsection \<open>Where the code departs from its documentation\<close>

text \<open>
  Claim C1. The documentation of \<open>search\<close> restricts the results to documents with
  \<open>access_level \<le> user_access_level\<close> whenever \<open>user_access_level\<close> is not \<^verbatim>\<open>None\<close>. The
  code tests \<^verbatim>\<open>not user_access_level\<close>, which holds for 0 as for \<^verbatim>\<open>None\<close>: a user of
  level 0 is shown a document of level 3.
\<close>

theorem search_user_level_zero_unfiltered:
  "search (build_index [\<lparr>id' = ''doc3'', title = ''Private customer runbook'', body = '''', tags = [], access_level = 3\<rparr>])
     [\<lparr>id' = ''doc3'', title = ''Private customer runbook'', body = '''', tags = [], access_level = 3\<rparr>] ''customer'' 5 (Some 0)
   = Inr [\<lparr>doc_id = ''doc3'', score = 1\<rparr>]
   \<and> map_of (id2doc_of [\<lparr>id' = ''doc3'', title = ''Private customer runbook'', body = '''', tags = [], access_level = 3\<rparr>]) ''doc3''
       = Some \<lparr>id' = ''doc3'', title = ''Private customer runbook'', body = '''', tags = [], access_level = 3\<rparr>
   \<and> \<not> access_level \<lparr>id' = ''doc3'', title = ''Private customer runbook'', body = '''', tags = [], access_level = 3\<rparr> \<le> 0"
  by code_simp

text \<open>
  Claim C3. For \<open>max_results = 0\<close> the result is empty, but a negative \<open>max_results\<close> makes
  the slice \<^verbatim>\<open>results[:max_results]\<close> drop results from the end only: with two results and
  \<open>max_results = -1\<close>, one result is returned.
\<close>

theorem search_negative_max_results_nonempty:
  "search [(''a'', [(''d2'', 1), (''d1'', 1)])]
     [\<lparr>id' = ''d1'', title = ''a'', body = '''', tags = [], access_level = 1\<rparr>,
      \<lparr>id' = ''d2'', title = ''a'', body = '''', tags = [], access_level = 2\<rparr>] ''a'' (- 1) None
   = Inr [\<lparr>doc_id = ''d1'', score = 1\<rparr>]
   \<and> search [(''a'', [(''d2'', 1), (''d1'', 1)])]
     [\<lparr>id' = ''d1'', title = ''a'', body = '''', tags = [], access_level = 1\<rparr>,
      \<lparr>id' = ''d2'', title = ''a'', body = '''', tags = [], access_level = 2\<rparr>] ''a'' 0 None
   = Inr []"
  by code_simp

end
